theory Spec2Isabelle
  imports Complex_Main "HOL-Library.Sublist"
begin

section \<open>Python values, exceptions and generators\<close>

text \<open>
  The values that \<^verbatim>\<open>json.loads\<close> and the search client hand to the readers: a JSON
  \<^verbatim>\<open>null\<close> is Python's \<^verbatim>\<open>None\<close>, an object is a \<^verbatim>\<open>dict\<close> (an association list read
  with \<open>map_of\<close>), an array is a \<^verbatim>\<open>list\<close>. The payload of a number is never inspected by
  the readers.
\<close>

datatype json =
    JNull
  | JBool bool
  | JNum int
  | JStr string
  | JArr "json list"
  | JObj "(string \<times> json) list"

datatype exn = ValueError | KeyError | AttributeError | TypeError | IOError | StopIteration

text \<open>
  What \<^verbatim>\<open>logging.warning\<close> is called with: the offending line of a file, or the
  offending search hit.
\<close>

datatype log = Unable_line string | Unable_row json

text \<open>
  A generator is observed through the events of its run, in order: the items it yields
  and the warnings it logs.
\<close>

datatype 'a event = Yield 'a | Warning log

text \<open>
  The complete run of a generator over a finite source: its events, and the exception
  that ended it, if one did (\<open>None\<close>: it returned and \<^verbatim>\<open>next\<close> raises StopIteration).
\<close>

datatype 'a gen = Gen (events: "'a event list") (raised: "exn option")

text \<open>One more event in front of the rest of a run.\<close>

definition emit :: "'a event \<Rightarrow> 'a gen \<Rightarrow> 'a gen" where
  "emit e g = Gen (e # events g) (raised g)"

fun yields :: "'a event list \<Rightarrow> 'a list" where
  "yields [] = []"
| "yields (Yield x # es) = x # yields es"
| "yields (Warning w # es) = yields es"

fun warnings :: "'a event list \<Rightarrow> log list" where
  "warnings [] = []"
| "warnings (Yield x # es) = warnings es"
| "warnings (Warning w # es) = w # warnings es"

text \<open>\<^verbatim>\<open>d.get(key)\<close>: only a dict has the method; a missing key gives \<^verbatim>\<open>None\<close>.\<close>

fun dict_get :: "json \<Rightarrow> string \<Rightarrow> exn + json" where
  "dict_get (JObj kvs) key = Inr (case map_of kvs key of None \<Rightarrow> JNull | Some v \<Rightarrow> v)"
| "dict_get v key = Inl AttributeError"

text \<open>\<^verbatim>\<open>d[key]\<close> with a string key: KeyError on a dict without it, TypeError on anything
  that is not a dict.\<close>

fun py_getitem :: "json \<Rightarrow> string \<Rightarrow> exn + json" where
  "py_getitem (JObj kvs) key = (case map_of kvs key of None \<Rightarrow> Inl KeyError | Some v \<Rightarrow> Inr v)"
| "py_getitem v key = Inl TypeError"

section \<open>String formatting\<close>

definition digit_char :: "nat \<Rightarrow> char" where
  "digit_char d = ''0123456789'' ! d"

text \<open>\<^verbatim>\<open>"%d" % n\<close> for a line number \<open>n\<close>: decimal, no leading zeros.\<close>

function str_of_nat :: "nat \<Rightarrow> string" where
  "str_of_nat n = (if n < 10 then [digit_char n] else str_of_nat (n div 10) @ [digit_char (n mod 10)])"
  by pat_completeness auto
termination
  by (relation "measure id") auto

text \<open>\<^verbatim>\<open>"%s/%s[%d]" % (filename, field, n)\<close>\<close>

definition fmt_id :: "string \<Rightarrow> string \<Rightarrow> nat \<Rightarrow> string" where
  "fmt_id filename field n = filename @ ''/'' @ field @ ''['' @ str_of_nat n @ '']''"

section \<open>The JSON-lines reader\<close>

text \<open>
  \<^verbatim>\<open>iter_document_json_stream(filename, field)\<close>, readers.py lines 36-45. The file system
  is a map from file names to the lines of the file (\<^verbatim>\<open>open\<close> raises IOError on a
  missing file); \<^verbatim>\<open>json.loads\<close> is a parameter, \<open>None\<close> when it raises ValueError.
  The body of the \<^verbatim>\<open>for n, line in enumerate(f)\<close> loop: a ValueError is caught and logged,
  the AttributeError of \<^verbatim>\<open>.get\<close> on a value that is not a dict is not caught and ends
  the generator.
\<close>

fun json_stream_loop ::
  "(string \<Rightarrow> json option) \<Rightarrow> string \<Rightarrow> string \<Rightarrow> nat \<Rightarrow> string list \<Rightarrow> (string \<times> json) gen" where
  "json_stream_loop loads filename field n [] = Gen [] None"
| "json_stream_loop loads filename field n (line # rest) =
     (case loads line of
        None \<Rightarrow>
          emit (Warning (Unable_line line)) (json_stream_loop loads filename field (Suc n) rest)
      | Some dictionary \<Rightarrow>
          (case dict_get dictionary field of
             Inl e \<Rightarrow> Gen [] (Some e)
           | Inr content \<Rightarrow>
               emit (Yield (fmt_id filename field n, content))
                 (json_stream_loop loads filename field (Suc n) rest)))"

definition iter_document_json_stream ::
  "(string \<Rightarrow> json option) \<Rightarrow> (string \<rightharpoonup> string list) \<Rightarrow> string \<Rightarrow> string \<Rightarrow> (string \<times> json) gen" where
  "iter_document_json_stream loads fs filename field =
     (case fs filename of
        None \<Rightarrow> Gen [] (Some IOError)
      | Some lines \<Rightarrow> json_stream_loop loads filename field 0 lines)"

text \<open>A line is a JSON object when \<^verbatim>\<open>json.loads\<close> returns a dict for it.\<close>

fun is_object :: "json option \<Rightarrow> bool" where
  "is_object (Some (JObj kvs)) = True"
| "is_object v = False"

text \<open>The record the loop body yields for line \<open>n\<close> when the line is a JSON object.\<close>

definition record_of ::
  "(string \<Rightarrow> json option) \<Rightarrow> string \<Rightarrow> string \<Rightarrow> nat \<Rightarrow> string \<Rightarrow> string \<times> json" where
  "record_of loads filename field n line =
     (fmt_id filename field n,
      case loads line of Some (JObj kvs) \<Rightarrow> (case map_of kvs field of None \<Rightarrow> JNull | Some v \<Rightarrow> v)
      | _ \<Rightarrow> JNull)"

fun records_from ::
  "(string \<Rightarrow> json option) \<Rightarrow> string \<Rightarrow> string \<Rightarrow> nat \<Rightarrow> string list \<Rightarrow> (string \<times> json) list" where
  "records_from loads filename field n [] = []"
| "records_from loads filename field n (line # rest) =
     record_of loads filename field n line # records_from loads filename field (Suc n) rest"

text \<open>Reading a decimal string back; used to show that \<open>str_of_nat\<close> is injective.\<close>

definition nat_of_str :: "string \<Rightarrow> nat" where
  "nat_of_str s = foldl (\<lambda>a c. 10 * a + (of_char c - 48)) 0 s"

section \<open>The large-JSON reader\<close>

text \<open>
  \<^verbatim>\<open>iter_large_json(json_file, prefix_value, event_value)\<close>, readers.py lines 76-84.
  \<^verbatim>\<open>ijson.parse(open(json_file))\<close> is a parameter: the (prefix, event, value) triples the
  parser produces for the file, and the exception that ends the parse, if one does.
\<close>

fun large_json_loop ::
  "string \<Rightarrow> string \<Rightarrow> (string \<times> string \<times> json) list \<Rightarrow> (string \<times> json) event list" where
  "large_json_loop prefix_value event_value [] = []"
| "large_json_loop prefix_value event_value ((prefix', event, v) # rest) =
     (if (prefix', event) = (prefix_value, event_value)
      then Yield (prefix' @ ''/'' @ event, v) # large_json_loop prefix_value event_value rest
      else large_json_loop prefix_value event_value rest)"

definition iter_large_json ::
  "(string \<Rightarrow> (string \<times> string \<times> json) list \<times> exn option) \<Rightarrow> string \<Rightarrow> string \<Rightarrow> string
     \<Rightarrow> (string \<times> json) gen" where
  "iter_large_json parser json_file prefix_value event_value =
     Gen (large_json_loop prefix_value event_value (fst (parser json_file)))
         (snd (parser json_file))"

section \<open>The query readers\<close>

text \<open>
  A reply of \<^verbatim>\<open>es.search\<close>: \<^verbatim>\<open>resp.get('_scroll_id')\<close> and \<^verbatim>\<open>resp['hits']['hits']\<close>. A hit is
  a JSON object the store sends; the readers index it themselves.
\<close>

record response =
  scroll_id :: "string option"
  hits :: "json list"

text \<open>
  What a query reader yields: \<^verbatim>\<open>(label, content)\<close>, or \<^verbatim>\<open>(hit['_id'], label, content)\<close>
  when \<^verbatim>\<open>include_id\<close> is set.
\<close>

type_synonym tup = "json option \<times> string \<times> json"

text \<open>
  How a run within a given number of rounds of a \<^verbatim>\<open>while\<close> loop stands: it has
  returned, an exception has left it, or the loop is still running.
\<close>

datatype ending = Returned | Raised exn | Out_of_fuel

text \<open>
  The \<^verbatim>\<open>try\<close> block of both query readers (readers.py lines 112-117 and 157-162), up to
  the \<^verbatim>\<open>yield\<close>: \<open>s\<close> is \<^verbatim>\<open>hit['_source']\<close>.
\<close>

definition make_tup :: "string \<Rightarrow> string option \<Rightarrow> bool \<Rightarrow> json \<Rightarrow> json \<Rightarrow> exn + tup" where
  "make_tup field subfield include_id hit s =
     (case (case subfield of
              Some sf \<Rightarrow>
                (case py_getitem s field of
                   Inl e \<Rightarrow> Inl e
                 | Inr v \<Rightarrow>
                     (case py_getitem v sf of
                        Inl e \<Rightarrow> Inl e
                      | Inr w \<Rightarrow> Inr (field @ ''/'' @ sf, w)))
            | None \<Rightarrow>
                (case py_getitem s field of
                   Inl e \<Rightarrow> Inl e
                 | Inr v \<Rightarrow> Inr (field, v))) of
        Inl e \<Rightarrow> Inl e
      | Inr (label, content) \<Rightarrow>
          if include_id
          then (case py_getitem hit ''_id'' of
                  Inl e \<Rightarrow> Inl e
                | Inr i \<Rightarrow> Inr (Some i, label, content))
          else Inr (None, label, content))"

definition cons_event ::
  "'a event \<Rightarrow> 'a event list \<times> exn option \<times> nat \<Rightarrow> 'a event list \<times> exn option \<times> nat" where
  "cons_event e r = (e # fst r, snd r)"

text \<open>
  The \<^verbatim>\<open>for hit in resp['hits']['hits']\<close> loop of \<^verbatim>\<open>iter_elastic_query\<close> (lines 109-123):
  the events, the exception that left the loop (if any) and the new value of
  \<^verbatim>\<open>error_prints\<close>. \<^verbatim>\<open>hit['_source']\<close> stands outside the \<^verbatim>\<open>try\<close>; inside it only
  ValueError and KeyError are caught, and logged for the first ten.
\<close>

fun scroll_hits ::
  "string \<Rightarrow> string option \<Rightarrow> bool \<Rightarrow> json list \<Rightarrow> nat \<Rightarrow> tup event list \<times> exn option \<times> nat" where
  "scroll_hits field subfield include_id [] error_prints = ([], None, error_prints)"
| "scroll_hits field subfield include_id (hit # rest) error_prints =
     (case py_getitem hit ''_source'' of
        Inl e \<Rightarrow> ([], Some e, error_prints)
      | Inr s \<Rightarrow>
          (case make_tup field subfield include_id hit s of
             Inr t \<Rightarrow>
               cons_event (Yield t) (scroll_hits field subfield include_id rest error_prints)
           | Inl e \<Rightarrow>
               if e = ValueError \<or> e = KeyError then
                 (if error_prints < 10
                  then cons_event (Warning (Unable_row hit))
                         (scroll_hits field subfield include_id rest (error_prints + 1))
                  else scroll_hits field subfield include_id rest error_prints)
               else ([], Some e, error_prints)))"

text \<open>
  The \<^verbatim>\<open>while True\<close> loop of \<^verbatim>\<open>iter_elastic_query\<close> (lines 108-128), run for at most the
  given number of rounds. The source never assigns \<^verbatim>\<open>resp\<close> inside the loop, so every
  round works on the reply of the initial search.
\<close>

fun scroll_loop ::
  "nat \<Rightarrow> string \<Rightarrow> string option \<Rightarrow> bool \<Rightarrow> response \<Rightarrow> nat \<Rightarrow> tup event list \<times> ending" where
  "scroll_loop 0 field subfield include_id resp error_prints = ([], Out_of_fuel)"
| "scroll_loop (Suc fuel) field subfield include_id resp error_prints =
     (case scroll_hits field subfield include_id (hits resp) error_prints of
        (es, Some e, ep) \<Rightarrow> (es, Raised e)
      | (es, None, ep) \<Rightarrow>
          if scroll_id resp = None \<or> hits resp = [] then (es, Returned)
          else (case scroll_loop fuel field subfield include_id resp ep of
                  (es', r) \<Rightarrow> (es @ es', r)))"

text \<open>
  \<^verbatim>\<open>iter_elastic_query(instance, index, field, subfield, doc_type, include_id)\<close>, lines
  93-128. \<open>search\<close> is \<^verbatim>\<open>es.search\<close> of the client built from \<^verbatim>\<open>instance\<close>, called once with
  the match-all body and the scroll window \<^verbatim>\<open>'5m'\<close>.
\<close>

definition iter_elastic_query ::
  "nat \<Rightarrow> (string \<Rightarrow> string option \<Rightarrow> response) \<Rightarrow> string \<Rightarrow> string \<Rightarrow> string option
     \<Rightarrow> string option \<Rightarrow> bool \<Rightarrow> tup event list \<times> ending" where
  "iter_elastic_query fuel search index field subfield doc_type include_id =
     (let resp = search index doc_type in
      if scroll_id resp = None then ([], Returned)
      else scroll_loop fuel field subfield include_id resp 0)"

text \<open>
  \<^verbatim>\<open>random_in_range\<close> (lines 135-142), given the value \<^verbatim>\<open>randint(0, full_doc_count)\<close>
  returned.
\<close>

definition random_in_range :: "int \<Rightarrow> int \<Rightarrow> int \<times> int" where
  "random_in_range r batch_size = (if r < 0 then (0, batch_size + r) else (r, batch_size))"

definition cons_sampled ::
  "'a event \<Rightarrow> 'a event list \<times> exn option \<times> nat \<times> int \<Rightarrow> 'a event list \<times> exn option \<times> nat \<times> int" where
  "cons_sampled e r = (e # fst r, snd r)"

text \<open>
  The \<^verbatim>\<open>for\<close> loop of \<^verbatim>\<open>random_elastic_query\<close> (lines 154-169): as above, and
  \<^verbatim>\<open>sampled\<close> is incremented after every \<^verbatim>\<open>yield\<close>.
\<close>

fun sample_hits ::
  "string \<Rightarrow> string option \<Rightarrow> bool \<Rightarrow> json list \<Rightarrow> nat \<Rightarrow> int
     \<Rightarrow> tup event list \<times> exn option \<times> nat \<times> int" where
  "sample_hits field subfield include_id [] error_prints sampled =
     ([], None, error_prints, sampled)"
| "sample_hits field subfield include_id (hit # rest) error_prints sampled =
     (case py_getitem hit ''_source'' of
        Inl e \<Rightarrow> ([], Some e, error_prints, sampled)
      | Inr s \<Rightarrow>
          (case make_tup field subfield include_id hit s of
             Inr t \<Rightarrow>
               cons_sampled (Yield t)
                 (sample_hits field subfield include_id rest error_prints (sampled + 1))
           | Inl e \<Rightarrow>
               if e = ValueError \<or> e = KeyError then
                 (if error_prints < 10
                  then cons_sampled (Warning (Unable_row hit))
                         (sample_hits field subfield include_id rest (error_prints + 1) sampled)
                  else sample_hits field subfield include_id rest error_prints sampled)
               else ([], Some e, error_prints, sampled)))"

text \<open>
  The \<^verbatim>\<open>while sampled < n_samples\<close> loop (lines 152-169), run for at most the given
  number of rounds. \<open>draws k\<close> is what the \<open>k\<close>-th call of \<^verbatim>\<open>randint(0, full_doc_count)\<close>
  returns (\<^verbatim>\<open>randint\<close> raises ValueError on an empty range), \<open>search k r siz\<close> the reply
  to the \<open>k\<close>-th \<^verbatim>\<open>es.search(..., from_=r, size=siz)\<close>. The result: the events, how the
  run stands, and the number of searches issued.
\<close>

fun sample_loop ::
  "nat \<Rightarrow> (nat \<Rightarrow> int) \<Rightarrow> (nat \<Rightarrow> int \<Rightarrow> int \<Rightarrow> response) \<Rightarrow> int \<Rightarrow> string \<Rightarrow> string option
     \<Rightarrow> bool \<Rightarrow> int \<Rightarrow> int \<Rightarrow> nat \<Rightarrow> int \<Rightarrow> nat \<Rightarrow> tup event list \<times> ending \<times> nat" where
  "sample_loop 0 draws search full_doc_count field subfield include_id batch_size n_samples
      k sampled error_prints =
     (if sampled < n_samples then ([], Out_of_fuel, k) else ([], Returned, k))"
| "sample_loop (Suc fuel) draws search full_doc_count field subfield include_id batch_size
      n_samples k sampled error_prints =
     (if sampled < n_samples then
        (if full_doc_count < 0 then ([], Raised ValueError, k)
         else
           (case random_in_range (draws k) batch_size of
              (r, siz) \<Rightarrow>
                (case sample_hits field subfield include_id (hits (search k r siz))
                        error_prints sampled of
                   (es, Some e, ep, sampled') \<Rightarrow> (es, Raised e, Suc k)
                 | (es, None, ep, sampled') \<Rightarrow>
                     (case sample_loop fuel draws search full_doc_count field subfield
                             include_id batch_size n_samples (Suc k) sampled' ep of
                        (es', r') \<Rightarrow> (es @ es', r')))))
      else ([], Returned, k))"

text \<open>
  \<^verbatim>\<open>random_elastic_query(instance, index, field, subfield, doc_type, include_id,
  batch_size, n_samples)\<close>, lines 129-169. \<open>full_doc_count\<close> is
  \<^verbatim>\<open>es.count(index=index, doc_type=doc_type)['count']\<close>.
\<close>

definition random_elastic_query ::
  "nat \<Rightarrow> (nat \<Rightarrow> int) \<Rightarrow> (nat \<Rightarrow> int \<Rightarrow> int \<Rightarrow> response) \<Rightarrow> int \<Rightarrow> string \<Rightarrow> string option
     \<Rightarrow> bool \<Rightarrow> int \<Rightarrow> int \<Rightarrow> tup event list \<times> ending \<times> nat" where
  "random_elastic_query fuel draws search full_doc_count field subfield include_id batch_size
      n_samples =
     sample_loop fuel draws search full_doc_count field subfield include_id batch_size
       n_samples 0 0 0"

text \<open>
  The remote store honours the \<^verbatim>\<open>size\<close> of a search: a reply holds at most that many
  hits.
\<close>

definition honours_size :: "(nat \<Rightarrow> int \<Rightarrow> int \<Rightarrow> response) \<Rightarrow> bool" where
  "honours_size search = (\<forall>k r siz. length (hits (search k r siz)) \<le> nat siz)"

section \<open>The source resolver\<close>

text \<open>\<^verbatim>\<open>sub in s\<close> on strings.\<close>

fun str_contains :: "string \<Rightarrow> string \<Rightarrow> bool" where
  "str_contains sub [] = (sub = [])"
| "str_contains sub (c # cs) = (prefix sub (c # cs) \<or> str_contains sub cs)"

text \<open>\<^verbatim>\<open>p.rfind(c)\<close> for a single character: the last index of \<open>c\<close>, or \<open>-1\<close>.\<close>

fun rfind_from :: "char \<Rightarrow> string \<Rightarrow> int \<Rightarrow> int \<Rightarrow> int" where
  "rfind_from c [] i found = found"
| "rfind_from c (x # xs) i found = rfind_from c xs (i + 1) (if x = c then i else found)"

definition rfind :: "char \<Rightarrow> string \<Rightarrow> int" where
  "rfind c p = rfind_from c p 0 (- 1)"

fun only_dots :: "string \<Rightarrow> bool" where
  "only_dots [] = True"
| "only_dots (c # cs) = (c = CHR ''.'' \<and> only_dots cs)"

text \<open>
  \<^verbatim>\<open>os.path.splitext\<close> on POSIX (the standard library's \<^verbatim>\<open>genericpath._splitext\<close> with
  \<^verbatim>\<open>sep = '/'\<close>, \<^verbatim>\<open>extsep = '.'\<close>): the extension starts at the last dot of the last
  path component, unless that component has only dots before it.
\<close>

definition splitext :: "string \<Rightarrow> string \<times> string" where
  "splitext p =
     (let sepIndex = rfind CHR ''/'' p; dotIndex = rfind CHR ''.'' p in
      if sepIndex < dotIndex
         \<and> \<not> only_dots (take (nat (dotIndex - (sepIndex + 1))) (drop (nat (sepIndex + 1)) p))
      then (take (nat dotIndex) p, drop (nat dotIndex) p)
      else (p, ''''))"

text \<open>
  An entry of \<^verbatim>\<open>registered_inputs\<close>, called as \<^verbatim>\<open>reader(source, **kwargs)\<close>: it raises,
  or returns the iterator. The registry itself (\<^verbatim>\<open>topik.fileio._registry\<close>) is a
  parameter of \<^verbatim>\<open>read_input\<close>; a key it lacks is a KeyError.
\<close>

type_synonym kwargs = "(string \<times> json) list"

type_synonym 'a reader = "string \<Rightarrow> kwargs \<Rightarrow> exn + 'a gen"

definition call_input ::
  "(string \<rightharpoonup> 'a reader) \<Rightarrow> string \<Rightarrow> string \<Rightarrow> kwargs \<Rightarrow> exn + 'a gen" where
  "call_input registered_inputs name source kwargs =
     (case registered_inputs name of
        None \<Rightarrow> Inl KeyError
      | Some reader \<Rightarrow> reader source kwargs)"

text \<open>
  What \<^verbatim>\<open>next\<close> returns on an iterator: the first item of the run, the exception that
  ends the run before any item, or StopIteration.
\<close>

definition next_item :: "'a gen \<Rightarrow> exn + 'a" where
  "next_item g =
     (case yields (events g) of
        x # xs \<Rightarrow> Inr x
      | [] \<Rightarrow> (case raised g of None \<Rightarrow> Inl StopIteration | Some e \<Rightarrow> Inl e))"

fun after_first_yield :: "'a event list \<Rightarrow> 'a event list" where
  "after_first_yield [] = []"
| "after_first_yield (Yield x # es) = es"
| "after_first_yield (Warning w # es) = after_first_yield es"

text \<open>
  \<^verbatim>\<open>next\<close> changes the iterator it is called on: \<open>pull\<close> gives what \<^verbatim>\<open>next\<close> returns
  together with the iterator afterwards, which stands behind its first item, or is
  exhausted when the run ended without one. \<^verbatim>\<open>next(itertools.tee(data_iterator)[0])\<close>
  draws its item from \<^verbatim>\<open>data_iterator\<close> itself, so it is a \<open>pull\<close> on \<^verbatim>\<open>data_iterator\<close>.
\<close>

definition pull :: "'a gen \<Rightarrow> (exn + 'a) \<times> 'a gen" where
  "pull g =
     (next_item g,
      case yields (events g) of
        x # xs \<Rightarrow> Gen (after_first_yield (events g)) (raised g)
      | [] \<Rightarrow> Gen [] None)"

definition json_extensions :: "string list" where
  "json_extensions = [''.js'', ''.json'']"

text \<open>
  The \<^verbatim>\<open>try\<close> block of \<^verbatim>\<open>read_input\<close> (reader.py lines 68-74): build the JSON-lines
  reader, pull one item from it, which leaves \<^verbatim>\<open>data_iterator\<close> behind its first item,
  and assign \<^verbatim>\<open>data_iterator\<close> anew by building the reader again. The source is taken to
  be the same for both calls of the reader.
\<close>

definition try_json_stream ::
  "(string \<rightharpoonup> 'a reader) \<Rightarrow> string \<Rightarrow> kwargs \<Rightarrow> exn + 'a gen" where
  "try_json_stream registered_inputs source kwargs =
     (case call_input registered_inputs ''read_json_stream'' source kwargs of
        Inl e \<Rightarrow> Inl e
      | Inr data_iterator \<Rightarrow>
          (case pull data_iterator of
             (Inl e, probed) \<Rightarrow> Inl e
           | (Inr first, probed) \<Rightarrow>
               call_input registered_inputs ''read_json_stream'' source kwargs))"

text \<open>
  \<^verbatim>\<open>read_input(source, source_type, content_field, **kwargs)\<close>, reader.py lines 56-87.
  The result is the exception raised or the iterator returned.
\<close>

definition read_input ::
  "(string \<rightharpoonup> 'a reader) \<Rightarrow> string \<Rightarrow> string \<Rightarrow> string \<Rightarrow> kwargs \<Rightarrow> exn + 'a gen" where
  "read_input registered_inputs source source_type content_field kwargs =
     (if (source_type = ''auto'' \<and> str_contains ''8983'' source) \<or> source_type = ''solr'' then
        call_input registered_inputs ''read_solr'' source kwargs
      else if (source_type = ''auto'' \<and> str_contains ''9200'' source) \<or> source_type = ''elastic'' then
        call_input registered_inputs ''read_elastic'' source kwargs
      else if (source_type = ''auto'' \<and> snd (splitext source) \<in> set json_extensions)
              \<or> source_type = ''json_stream'' then
        (case try_json_stream registered_inputs source kwargs of
           Inl e \<Rightarrow>
             if e = ValueError
             then call_input registered_inputs ''read_large_json'' source kwargs
             else Inl e
         | Inr data_iterator \<Rightarrow> Inr data_iterator)
      else if source_type = ''large_json'' then
        call_input registered_inputs ''read_large_json'' source kwargs
      else if (source_type = ''auto'' \<and> snd (splitext source) = '''') \<or> source_type = ''folder'' then
        call_input registered_inputs ''read_document_folder'' source
          [(''content_field'', JStr content_field)]
      else Inl ValueError)"

section \<open>Example inputs\<close>

text \<open>Lines of text, as iterating over a file delivers them.\<close>

definition line_a :: string where
  \<open>line_a = ''{"text": "a"}'' @ [CHR 0x0A]\<close>

definition line_b :: string where
  \<open>line_b = ''{"text": "b"}'' @ [CHR 0x0A]\<close>

definition line_id :: string where
  \<open>line_id = ''{"id": 1}'' @ [CHR 0x0A]\<close>

definition line_cut :: string where
  \<open>line_cut = ''{"text": '' @ [CHR 0x0A]\<close>

text \<open>
  The three lines of a JSON document written over several lines, and a JSON document
  that is an array on one line.
\<close>

definition line_open :: string where
  \<open>line_open = ''{'' @ [CHR 0x0A]\<close>

definition line_item :: string where
  \<open>line_item = ''  "item": {"content": "a"}'' @ [CHR 0x0A]\<close>

definition line_close :: string where
  \<open>line_close = ''}'' @ [CHR 0x0A]\<close>

definition line_array :: string where
  \<open>line_array = ''[{"content": "a"}, {"content": "b"}]'' @ [CHR 0x0A]\<close>

text \<open>
  What \<^verbatim>\<open>json.loads\<close> does on them: it returns a dict for three of the lines and a list
  for the array, and raises ValueError on the others, none of which is JSON by itself.
\<close>

definition example_loads :: "string \<Rightarrow> json option" where
  "example_loads l =
     (if l = line_a then Some (JObj [(''text'', JStr ''a'')])
      else if l = line_b then Some (JObj [(''text'', JStr ''b'')])
      else if l = line_id then Some (JObj [(''id'', JNum 1)])
      else if l = line_array
      then Some (JArr [JObj [(''content'', JStr ''a'')], JObj [(''content'', JStr ''b'')]])
      else None)"

text \<open>
  The files: two JSON objects, the second without the field \<^verbatim>\<open>text\<close>; three lines
  with the truncated one in the middle; a copy of the first under a name that holds
  \<^verbatim>\<open>9200\<close>; the two large JSON documents; and an empty file.
\<close>

definition example_fs :: "string \<rightharpoonup> string list" where
  "example_fs name =
     (if name = ''data.json'' \<or> name = ''dump9200.json'' then Some [line_a, line_id]
      else if name = ''mixed.json'' then Some [line_a, line_cut, line_b]
      else if name = ''big.json'' then Some [line_open, line_item, line_close]
      else if name = ''array.json'' then Some [line_array]
      else if name = ''empty.json'' then Some []
      else None)"

text \<open>
  A registry over these files: the JSON-lines reader is \<open>iter_document_json_stream\<close> on
  the field \<^verbatim>\<open>text\<close>, every other reader yields one record that names it.
\<close>

definition example_registry :: "string \<rightharpoonup> (string \<times> json) reader" where
  "example_registry name =
     (if name = ''read_json_stream''
      then Some (\<lambda>source kwargs. Inr (iter_document_json_stream example_loads example_fs source ''text''))
      else if name \<in> set [''read_solr'', ''read_elastic'', ''read_large_json'', ''read_document_folder'']
      then Some (\<lambda>source kwargs. Inr (Gen [Yield (name, JStr source)] None))
      else None)"

text \<open>
  The events \<^verbatim>\<open>ijson.parse\<close> produces for a document with two strings under
  \<^verbatim>\<open>item.content\<close>.
\<close>

definition example_parser :: "string \<Rightarrow> (string \<times> string \<times> json) list \<times> exn option" where
  "example_parser json_file =
     ([(''item'', ''start_map'', JNull),
       (''item.content'', ''string'', JStr ''a''),
       (''item.content'', ''string'', JStr ''b'')], None)"

text \<open>A hit whose source has the field \<^verbatim>\<open>text\<close>, and a first page that holds it.\<close>

definition example_hit :: json where
  "example_hit = JObj [(''_id'', JStr ''1''), (''_source'', JObj [(''text'', JStr ''a'')])]"

definition example_page :: response where
  "example_page = \<lparr>scroll_id = Some ''c1'', hits = [example_hit]\<rparr>"

text \<open>
  A store of two documents that serves the window \<^verbatim>\<open>[from_, from_ + size)\<close> of them to
  the random-sample reader.
\<close>

definition example_search :: "nat \<Rightarrow> int \<Rightarrow> int \<Rightarrow> response" where
  "example_search k r siz =
     \<lparr>scroll_id = None, hits = take (nat siz) (drop (nat r) [example_hit, example_hit])\<rparr>"


section \<open>Properties of the JSON-lines reader\<close>

lemma events_emit [simp]: "events (emit e g) = e # events g"
  by (simp add: emit_def)

lemma raised_emit [simp]: "raised (emit e g) = raised g"
  by (simp add: emit_def)

lemma emit_Gen: "emit e (Gen es r) = Gen (e # es) r"
  by (simp add: emit_def)

lemma json_stream_loop_objects:
  "list_all (\<lambda>l. is_object (loads l)) ls \<Longrightarrow>
   json_stream_loop loads filename field n ls =
     Gen (map Yield (records_from loads filename field n ls)) None"
proof (induction ls arbitrary: n)
  case Nil
  show ?case by simp
next
  case (Cons l ls)
  from Cons.prems obtain kvs where l: "loads l = Some (JObj kvs)"
    by (cases "loads l" rule: is_object.cases) auto
  from Cons.prems have "list_all (\<lambda>l. is_object (loads l)) ls" by simp
  from Cons.IH [OF this] l show ?case
    by (simp add: record_of_def emit_Gen)
qed

lemma length_records_from: "length (records_from loads filename field n ls) = length ls"
  by (induction ls arbitrary: n) auto

lemma nth_records_from:
  "i < length ls \<Longrightarrow>
   records_from loads filename field n ls ! i = record_of loads filename field (n + i) (ls ! i)"
proof (induction ls arbitrary: n i)
  case Nil
  then show ?case by simp
next
  case (Cons l ls)
  show ?case
  proof (cases i)
    case 0
    then show ?thesis by simp
  next
    case (Suc j)
    with Cons.prems have "j < length ls" by simp
    from Cons.IH [OF this, of "Suc n"] Suc show ?thesis by simp
  qed
qed

lemma yields_map_Yield: "yields (map Yield xs) = xs"
  by (induction xs) auto

lemma warnings_map_Yield: "warnings (map Yield xs) = []"
  by (induction xs) auto

lemma digit_char_val: "d < 10 \<Longrightarrow> (of_char (digit_char d) :: nat) = 48 + d"
proof -
  assume "d < 10"
  then have "d = 0 \<or> d = 1 \<or> d = 2 \<or> d = 3 \<or> d = 4 \<or> d = 5 \<or> d = 6 \<or> d = 7
    \<or> d = 8 \<or> d = 9" by arith
  then show ?thesis by (elim disjE) (simp_all add: digit_char_def)
qed

lemma nat_of_str_snoc: "nat_of_str (s @ [c]) = 10 * nat_of_str s + (of_char c - 48)"
  by (simp add: nat_of_str_def)

lemma nat_of_str_of_nat: "nat_of_str (str_of_nat n) = n"
proof (induction n rule: str_of_nat.induct)
  case (1 n)
  show ?case
  proof (cases "n < 10")
    case True
    then show ?thesis by (simp add: nat_of_str_def digit_char_val)
  next
    case False
    with 1 have IH: "nat_of_str (str_of_nat (n div 10)) = n div 10" by simp
    have "n mod 10 < 10" by simp
    then have "(of_char (digit_char (n mod 10)) :: nat) - 48 = n mod 10"
      by (simp add: digit_char_val)
    with False IH show ?thesis
      by (subst str_of_nat.simps) (simp add: nat_of_str_snoc)
  qed
qed

lemma str_of_nat_inj: "str_of_nat m = str_of_nat n \<Longrightarrow> m = n"
  by (metis nat_of_str_of_nat)

lemma fmt_id_inj: "fmt_id filename field m = fmt_id filename field n \<Longrightarrow> m = n"
  by (simp add: fmt_id_def str_of_nat_inj)

lemma json_stream_loop_ids:
  "x \<in> set (yields (events (json_stream_loop loads filename field n ls))) \<Longrightarrow>
   \<exists>k \<ge> n. fst x = fmt_id filename field k"
proof (induction ls arbitrary: n)
  case Nil
  then show ?case by simp
next
  case (Cons l ls)
  have step: "\<exists>k \<ge> n. fst x = fmt_id filename field k"
    if "x \<in> set (yields (events (json_stream_loop loads filename field (Suc n) ls)))"
  proof -
    from Cons.IH [OF that] obtain k where "k \<ge> Suc n" "fst x = fmt_id filename field k" by blast
    then have "k \<ge> n" by simp
    with \<open>fst x = fmt_id filename field k\<close> show ?thesis by blast
  qed
  from Cons.prems show ?case
    by (auto split: option.splits sum.splits dest: step)
qed

lemma json_stream_loop_distinct:
  "distinct (map fst (yields (events (json_stream_loop loads filename field n ls))))"
proof (induction ls arbitrary: n)
  case Nil
  show ?case by simp
next
  case (Cons l ls)
  have fresh: "fmt_id filename field n \<notin> fst ` set (yields (events (json_stream_loop loads filename field (Suc n) ls)))"
  proof
    assume "fmt_id filename field n \<in> fst ` set (yields (events (json_stream_loop loads filename field (Suc n) ls)))"
    then obtain x where "x \<in> set (yields (events (json_stream_loop loads filename field (Suc n) ls)))"
      and "fst x = fmt_id filename field n" by auto
    with json_stream_loop_ids [of x loads filename field "Suc n" ls]
    obtain k where "k \<ge> Suc n" "fmt_id filename field n = fmt_id filename field k" by auto
    then show False using fmt_id_inj by fastforce
  qed
  from Cons.IH [of "Suc n"] fresh show ?case
    by (auto split: option.splits sum.splits)
qed

lemma json_stream_loop_append:
  "list_all (\<lambda>l. loads l = None \<or> is_object (loads l)) pre \<Longrightarrow>
   json_stream_loop loads filename field n (pre @ rest) =
     Gen (events (json_stream_loop loads filename field n pre)
          @ events (json_stream_loop loads filename field (n + length pre) rest))
         (raised (json_stream_loop loads filename field (n + length pre) rest))"
proof (induction pre arbitrary: n)
  case Nil
  show ?case by simp
next
  case (Cons l pre)
  from Cons.prems have rest: "list_all (\<lambda>l. loads l = None \<or> is_object (loads l)) pre" by simp
  from Cons.prems have "loads l = None \<or> (\<exists>kvs. loads l = Some (JObj kvs))"
    by (cases "loads l" rule: is_object.cases) auto
  with Cons.IH [OF rest, of "Suc n"] show ?case
    by (auto simp: emit_def)
qed

lemma yields_append: "yields (xs @ ys) = yields xs @ yields ys"
  by (induction xs rule: yields.induct) auto

lemma warnings_append: "warnings (xs @ ys) = warnings xs @ warnings ys"
  by (induction xs rule: warnings.induct) auto

lemma example_loads_simps:
  "example_loads line_a = Some (JObj [(''text'', JStr ''a'')])"
  "example_loads line_b = Some (JObj [(''text'', JStr ''b'')])"
  "example_loads line_id = Some (JObj [(''id'', JNum 1)])"
  "example_loads line_cut = None"
  "example_loads line_open = None"
  "example_loads line_item = None"
  "example_loads line_close = None"
  "example_loads line_array
     = Some (JArr [JObj [(''content'', JStr ''a'')], JObj [(''content'', JStr ''b'')]])"
  by (simp_all add: example_loads_def line_a_def line_b_def line_id_def line_cut_def
      line_open_def line_item_def line_close_def line_array_def)

lemma example_fs_simps:
  "example_fs ''data.json'' = Some [line_a, line_id]"
  "example_fs ''dump9200.json'' = Some [line_a, line_id]"
  "example_fs ''mixed.json'' = Some ([line_a] @ line_cut # [line_b])"
  "example_fs ''big.json'' = Some [line_open, line_item, line_close]"
  "example_fs ''array.json'' = Some [line_array]"
  "example_fs ''empty.json'' = Some []"
  by (simp_all add: example_fs_def)

text \<open>
  C5. On a file all of whose \<open>N\<close> lines are JSON objects, the JSON-lines reader ends
  normally, logs nothing and yields exactly \<open>N\<close> records in file order; the record at
  position \<open>i\<close> is the one of line \<open>i\<close>, with the identifier \<open>path/field[i]\<close>, \<open>i\<close>
  counted from zero and written in decimal.
\<close>

theorem json_stream_well_formed:
  assumes "fs filename = Some ls"
    and "list_all (\<lambda>l. is_object (loads l)) ls"
  shows "raised (iter_document_json_stream loads fs filename field) = None
    \<and> warnings (events (iter_document_json_stream loads fs filename field)) = []
    \<and> length (yields (events (iter_document_json_stream loads fs filename field))) = length ls
    \<and> (\<forall>i < length ls.
          yields (events (iter_document_json_stream loads fs filename field)) ! i
            = record_of loads filename field i (ls ! i)
        \<and> fst (yields (events (iter_document_json_stream loads fs filename field)) ! i)
            = filename @ ''/'' @ field @ ''['' @ str_of_nat i @ '']'')"
proof -
  have run: "iter_document_json_stream loads fs filename field =
      Gen (map Yield (records_from loads filename field 0 ls)) None"
    using assms by (simp add: iter_document_json_stream_def json_stream_loop_objects)
  show ?thesis
    unfolding run
    by (simp add: yields_map_Yield warnings_map_Yield length_records_from nth_records_from
        record_of_def fmt_id_def)
qed

theorem json_stream_well_formed_witness:
  "example_fs ''data.json'' = Some [line_a, line_id]
   \<and> list_all (\<lambda>l. is_object (example_loads l)) [line_a, line_id]
   \<and> raised (iter_document_json_stream example_loads example_fs ''data.json'' ''text'') = None
   \<and> length (yields (events (iter_document_json_stream example_loads example_fs ''data.json'' ''text''))) = 2
   \<and> fst (yields (events (iter_document_json_stream example_loads example_fs ''data.json'' ''text'')) ! 1)
       = ''data.json/text[1]''"
proof -
  have objs: "list_all (\<lambda>l. is_object (example_loads l)) [line_a, line_id]"
    by (simp add: example_loads_simps)
  from json_stream_well_formed [of example_fs "''data.json''" "[line_a, line_id]" example_loads "''text''",
      OF example_fs_simps(1) objs] objs
  show ?thesis
    by (simp add: example_fs_simps record_of_def fmt_id_def digit_char_def)
qed

text \<open>
  C7. On a file of \<open>N\<close> lines of which exactly one fails to parse (\<^verbatim>\<open>json.loads\<close> raises
  ValueError) and the others are JSON objects, the JSON-lines reader runs to the end of
  the file without an exception, logs exactly one warning, the one for the malformed
  line, and yields \<open>N - 1\<close> records: those of the lines before it and those of the
  lines after it, in file order, each under its own line number.
\<close>

theorem json_stream_one_malformed:
  assumes "fs filename = Some (before @ bad # after)"
    and "list_all (\<lambda>l. is_object (loads l)) before"
    and "loads bad = None"
    and "list_all (\<lambda>l. is_object (loads l)) after"
  shows "raised (iter_document_json_stream loads fs filename field) = None
    \<and> warnings (events (iter_document_json_stream loads fs filename field)) = [Unable_line bad]
    \<and> yields (events (iter_document_json_stream loads fs filename field))
        = records_from loads filename field 0 before
          @ records_from loads filename field (Suc (length before)) after
    \<and> Suc (length (yields (events (iter_document_json_stream loads fs filename field))))
        = length (before @ bad # after)"
proof -
  let ?g = "iter_document_json_stream loads fs filename field"
  from assms(2) have pre: "list_all (\<lambda>l. loads l = None \<or> is_object (loads l)) before"
    by (induction before) auto
  have run: "?g = json_stream_loop loads filename field 0 (before @ bad # after)"
    using assms(1) by (simp add: iter_document_json_stream_def)
  have ev: "events ?g = map Yield (records_from loads filename field 0 before)
      @ Warning (Unable_line bad)
      # map Yield (records_from loads filename field (Suc (length before)) after)"
    unfolding run json_stream_loop_append [OF pre]
    by (simp add: assms(3) json_stream_loop_objects [OF assms(2)] json_stream_loop_objects [OF assms(4)])
  have ra: "raised ?g = None"
    unfolding run json_stream_loop_append [OF pre]
    by (simp add: assms(3) json_stream_loop_objects [OF assms(4)])
  have y: "yields (events ?g) = records_from loads filename field 0 before
      @ records_from loads filename field (Suc (length before)) after"
    unfolding ev by (simp add: yields_append yields_map_Yield)
  have w: "warnings (events ?g) = [Unable_line bad]"
    unfolding ev by (simp add: warnings_append warnings_map_Yield)
  from ra w y show ?thesis
    by (simp add: length_records_from)
qed

theorem json_stream_one_malformed_witness:
  "example_fs ''mixed.json'' = Some ([line_a] @ line_cut # [line_b])
   \<and> list_all (\<lambda>l. is_object (example_loads l)) [line_a]
   \<and> example_loads line_cut = None
   \<and> list_all (\<lambda>l. is_object (example_loads l)) [line_b]
   \<and> raised (iter_document_json_stream example_loads example_fs ''mixed.json'' ''text'') = None
   \<and> warnings (events (iter_document_json_stream example_loads example_fs ''mixed.json'' ''text''))
       = [Unable_line line_cut]
   \<and> yields (events (iter_document_json_stream example_loads example_fs ''mixed.json'' ''text''))
       = [(''mixed.json/text[0]'', JStr ''a''), (''mixed.json/text[2]'', JStr ''b'')]"
proof -
  have a: "list_all (\<lambda>l. is_object (example_loads l)) [line_a]"
    by (simp add: example_loads_simps)
  have b: "list_all (\<lambda>l. is_object (example_loads l)) [line_b]"
    by (simp add: example_loads_simps)
  have recs: "records_from example_loads ''mixed.json'' ''text'' 0 [line_a]
      @ records_from example_loads ''mixed.json'' ''text'' (Suc (length [line_a])) [line_b]
      = [(''mixed.json/text[0]'', JStr ''a''), (''mixed.json/text[2]'', JStr ''b'')]"
    by (simp add: record_of_def fmt_id_def digit_char_def example_loads_simps)
  from json_stream_one_malformed [of example_fs "''mixed.json''" "[line_a]" line_cut "[line_b]"
      example_loads "''text''", OF example_fs_simps(3) a example_loads_simps(4) b]
  show ?thesis
    unfolding recs using example_fs_simps(3) example_loads_simps(4) a b by simp
qed
text \<open>
  C3. The claim fails on the code: the JSON-lines reader yields the record of a line
  that is a JSON object without the requested field, with content \<^verbatim>\<open>None\<close> (\<open>JNull\<close>).
  Here the second line of the file, \<^verbatim>\<open>{"id": 1}\<close>, read for the field \<^verbatim>\<open>text\<close>.
\<close>

theorem json_stream_missing_field_counterexample:
  "example_fs ''data.json'' = Some [line_a, line_id]
   \<and> example_loads line_id = Some (JObj [(''id'', JNum 1)])
   \<and> map_of [(''id'', JNum 1)] ''text'' = None
   \<and> yields (events (iter_document_json_stream example_loads example_fs ''data.json'' ''text''))
       = [(''data.json/text[0]'', JStr ''a''), (''data.json/text[1]'', JNull)]"
  by (simp add: example_fs_simps example_loads_simps iter_document_json_stream_def fmt_id_def
      digit_char_def)

text \<open>
  C3, as amended. A line that parses as a JSON object without the requested field is
  not dropped: when the reader reaches line \<open>i\<close> (no earlier line parsed to a JSON value
  that is not an object, which would end the run with an AttributeError), it yields the
  record with the identifier of line \<open>i\<close> and the content \<^verbatim>\<open>None\<close>.
\<close>

theorem json_stream_missing_field_yielded:
  assumes "fs filename = Some ls"
    and "i < length ls"
    and "list_all (\<lambda>l. loads l = None \<or> is_object (loads l)) (take i ls)"
    and "loads (ls ! i) = Some (JObj kvs)"
    and "map_of kvs field = None"
  shows "(fmt_id filename field i, JNull)
    \<in> set (yields (events (iter_document_json_stream loads fs filename field)))"
proof -
  define before where "before = take i ls"
  define after where "after = drop (Suc i) ls"
  from assms(2) have split: "ls = before @ ls ! i # after"
    unfolding before_def after_def by (rule id_take_nth_drop)
  from assms(2) have len: "length before = i"
    by (simp add: before_def)
  from assms(3) have ok: "list_all (\<lambda>l. loads l = None \<or> is_object (loads l)) before"
    by (simp add: before_def)
  have "iter_document_json_stream loads fs filename field = json_stream_loop loads filename field 0 ls"
    using assms(1) by (simp add: iter_document_json_stream_def)
  also have "\<dots> = json_stream_loop loads filename field 0 (before @ ls ! i # after)"
    by (rule arg_cong [OF split])
  finally have "events (iter_document_json_stream loads fs filename field)
      = events (json_stream_loop loads filename field 0 before)
        @ events (json_stream_loop loads filename field i (ls ! i # after))"
    using len by (simp add: json_stream_loop_append [OF ok])
  moreover have "events (json_stream_loop loads filename field i (ls ! i # after))
      = Yield (fmt_id filename field i, JNull)
        # events (json_stream_loop loads filename field (Suc i) after)"
    using assms(4,5) by simp
  ultimately show ?thesis
    by (simp add: yields_append)
qed

theorem json_stream_missing_field_yielded_witness:
  "example_fs ''data.json'' = Some [line_a, line_id]
   \<and> (1::nat) < length [line_a, line_id]
   \<and> list_all (\<lambda>l. example_loads l = None \<or> is_object (example_loads l)) (take 1 [line_a, line_id])
   \<and> example_loads ([line_a, line_id] ! 1) = Some (JObj [(''id'', JNum 1)])
   \<and> map_of [(''id'', JNum 1)] ''text'' = None
   \<and> (''data.json/text[1]'', JNull)
       \<in> set (yields (events (iter_document_json_stream example_loads example_fs ''data.json'' ''text'')))"
proof -
  have h3: "list_all (\<lambda>l. example_loads l = None \<or> is_object (example_loads l)) (take 1 [line_a, line_id])"
    by (simp add: example_loads_simps)
  have h4: "example_loads ([line_a, line_id] ! 1) = Some (JObj [(''id'', JNum 1)])"
    by (simp add: example_loads_simps)
  have h5: "map_of [(''id'', JNum 1)] ''text'' = None" by simp
  have id: "fmt_id ''data.json'' ''text'' 1 = ''data.json/text[1]''"
    by (simp add: fmt_id_def digit_char_def)
  from json_stream_missing_field_yielded [of example_fs "''data.json''" "[line_a, line_id]" 1
      example_loads "[(''id'', JNum 1)]" "''text''", OF example_fs_simps(1) _ h3 h4 h5]
  have "(fmt_id ''data.json'' ''text'' 1, JNull)
      \<in> set (yields (events (iter_document_json_stream example_loads example_fs ''data.json'' ''text'')))"
    by simp
  with h3 h4 h5 example_fs_simps(1) show ?thesis
    unfolding id by simp
qed

lemma make_tup_label:
  "make_tup field subfield include_id hit s = Inr t \<Longrightarrow>
   fst (snd t) = (case subfield of None \<Rightarrow> field | Some sf \<Rightarrow> field @ ''/'' @ sf)"
  by (auto simp: make_tup_def split: option.splits sum.splits if_splits)

lemma scroll_hits_label:
  "t \<in> set (yields (fst (scroll_hits field subfield include_id hs ep))) \<Longrightarrow>
   fst (snd t) = (case subfield of None \<Rightarrow> field | Some sf \<Rightarrow> field @ ''/'' @ sf)"
proof (induction hs arbitrary: ep)
  case Nil
  then show ?case by simp
next
  case (Cons h hs)
  then show ?case
    by (auto simp: cons_event_def split: sum.splits if_splits dest: make_tup_label)
qed

lemma scroll_loop_label:
  "t \<in> set (yields (fst (scroll_loop fuel field subfield include_id resp ep))) \<Longrightarrow>
   fst (snd t) = (case subfield of None \<Rightarrow> field | Some sf \<Rightarrow> field @ ''/'' @ sf)"
proof (induction fuel arbitrary: ep)
  case 0
  then show ?case by simp
next
  case (Suc fuel)
  obtain es r ep' where sh: "scroll_hits field subfield include_id (hits resp) ep = (es, r, ep')"
    by (cases "scroll_hits field subfield include_id (hits resp) ep") auto
  have es: "t \<in> set (yields es) \<Longrightarrow> ?case"
    using scroll_hits_label [of t field subfield include_id "hits resp" ep] sh by simp
  have unfold: "fst (scroll_loop (Suc fuel) field subfield include_id resp ep)
      = (case r of
           Some e \<Rightarrow> es
         | None \<Rightarrow>
             if scroll_id resp = None \<or> hits resp = [] then es
             else es @ fst (scroll_loop fuel field subfield include_id resp ep'))"
    using sh by (auto split: option.splits prod.splits)
  from Suc.prems have "t \<in> set (yields es)
      \<or> t \<in> set (yields (fst (scroll_loop fuel field subfield include_id resp ep')))"
    unfolding unfold by (auto simp: yields_append split: option.splits if_splits)
  then show ?case
    using es Suc.IH by blast
qed

lemma large_json_loop_id:
  "x \<in> set (yields (large_json_loop prefix_value event_value evs)) \<Longrightarrow>
   fst x = prefix_value @ ''/'' @ event_value"
  by (induction prefix_value event_value evs rule: large_json_loop.induct) (auto split: if_splits)

text \<open>
  C2. The claim fails on the code for two of the three readers. The large-JSON reader
  gives both records of a document with two matching events the identifier
  \<^verbatim>\<open>item.content/string\<close>; the full-scroll reader gives the two tuples of its first two
  rounds the identifier \<^verbatim>\<open>text\<close>.
\<close>

theorem identifier_unique_counterexample:
  "map fst (yields (events (iter_large_json example_parser ''big.json'' ''item.content'' ''string'')))
     = [''item.content/string'', ''item.content/string'']
   \<and> \<not> distinct (map fst (yields (events
         (iter_large_json example_parser ''big.json'' ''item.content'' ''string''))))
   \<and> map (\<lambda>t. fst (snd t)) (yields (fst
         (iter_elastic_query 2 (\<lambda>index doc_type. example_page) ''docs'' ''text'' None None False)))
     = [''text'', ''text'']"
  by (simp add: iter_large_json_def example_parser_def iter_elastic_query_def example_page_def
      example_hit_def make_tup_def cons_event_def numeral_2_eq_2)

text \<open>
  C2, as amended. Within one iteration the identifiers of the JSON-lines reader are
  pairwise different, whatever the lines of the file are. The large-JSON reader gives
  every record it yields the same identifier, \<open>prefix/event\<close>, and the full-scroll
  reader gives every tuple it yields the same identifier, \<open>field\<close> or \<open>field/subfield\<close>:
  their identifiers are unique only when at most one record is yielded.
\<close>

theorem identifier_unique_json_stream_only:
  "distinct (map fst (yields (events (iter_document_json_stream loads fs filename field))))
   \<and> (\<forall>x \<in> set (yields (events (iter_large_json parser json_file prefix_value event_value))).
         fst x = prefix_value @ ''/'' @ event_value)
   \<and> (\<forall>t \<in> set (yields (fst (iter_elastic_query fuel search index qfield subfield doc_type include_id))).
         fst (snd t) = (case subfield of None \<Rightarrow> qfield | Some sf \<Rightarrow> qfield @ ''/'' @ sf))"
proof (intro conjI ballI)
  show "distinct (map fst (yields (events (iter_document_json_stream loads fs filename field))))"
    by (cases "fs filename") (simp_all add: iter_document_json_stream_def json_stream_loop_distinct)
next
  fix x
  assume "x \<in> set (yields (events (iter_large_json parser json_file prefix_value event_value)))"
  then show "fst x = prefix_value @ ''/'' @ event_value"
    by (simp add: iter_large_json_def large_json_loop_id)
next
  fix t
  assume "t \<in> set (yields (fst (iter_elastic_query fuel search index qfield subfield doc_type include_id)))"
  then show "fst (snd t) = (case subfield of None \<Rightarrow> qfield | Some sf \<Rightarrow> qfield @ ''/'' @ sf)"
    by (auto simp: iter_elastic_query_def Let_def split: if_splits dest: scroll_loop_label)
qed

theorem identifier_unique_json_stream_only_witness:
  "distinct (map fst (yields (events (iter_document_json_stream example_loads example_fs ''mixed.json'' ''text''))))
   \<and> (''item.content/string'', JStr ''b'')
       \<in> set (yields (events (iter_large_json example_parser ''big.json'' ''item.content'' ''string'')))
   \<and> fst (''item.content/string'', JStr ''b'') = ''item.content'' @ ''/'' @ ''string''
   \<and> (None, ''text'', JStr ''a'')
       \<in> set (yields (fst (iter_elastic_query 2 (\<lambda>index doc_type. example_page) ''docs'' ''text'' None None False)))
   \<and> fst (snd (None :: json option, ''text'', JStr ''a'')) = ''text''"
proof -
  have a: "(''item.content/string'', JStr ''b'')
      \<in> set (yields (events (iter_large_json example_parser ''big.json'' ''item.content'' ''string'')))"
    by (simp add: iter_large_json_def example_parser_def)
  have b: "(None, ''text'', JStr ''a'')
      \<in> set (yields (fst (iter_elastic_query 2 (\<lambda>index doc_type. example_page) ''docs'' ''text'' None None False)))"
    by (simp add: iter_elastic_query_def example_page_def example_hit_def make_tup_def
        cons_event_def numeral_2_eq_2)
  from identifier_unique_json_stream_only [of example_loads example_fs "''mixed.json''" "''text''"
      example_parser "''big.json''" "''item.content''" "''string''" 2 "\<lambda>index doc_type. example_page"
      "''docs''" "''text''" None None False] a b
  show ?thesis by auto
qed

section \<open>Properties of the query readers\<close>

lemma scroll_hits_example:
  "scroll_hits ''text'' None False [example_hit] ep = ([Yield (None, ''text'', JStr ''a'')], None, ep)"
  by (simp add: example_hit_def make_tup_def cons_event_def)

lemma scroll_loop_example:
  "scroll_loop fuel ''text'' None False example_page ep
     = (replicate fuel (Yield (None, ''text'', JStr ''a'')), Out_of_fuel)"
proof (induction fuel arbitrary: ep)
  case 0
  show ?case by simp
next
  case (Suc fuel)
  have page: "hits example_page = [example_hit]" "scroll_id example_page = Some ''c1''"
    by (simp_all add: example_page_def)
  show ?case
    by (simp add: page scroll_hits_example Suc.IH del: scroll_hits.simps)
qed

lemma scroll_reader_no_cursor:
  "scroll_id (search index doc_type) = None \<Longrightarrow>
   iter_elastic_query fuel search index field subfield doc_type include_id = ([], Returned)"
  by (simp add: iter_elastic_query_def)

lemma scroll_loop_never_returns:
  "scroll_id resp \<noteq> None \<Longrightarrow> hits resp \<noteq> [] \<Longrightarrow>
   snd (scroll_loop fuel field subfield include_id resp ep) \<noteq> Returned"
proof (induction fuel arbitrary: ep)
  case 0
  show ?case by simp
next
  case (Suc fuel)
  obtain es r ep' where sh: "scroll_hits field subfield include_id (hits resp) ep = (es, r, ep')"
    by (cases "scroll_hits field subfield include_id (hits resp) ep") auto
  from Suc.IH [OF Suc.prems, of ep'] Suc.prems sh show ?case
    by (cases r; cases "scroll_loop fuel field subfield include_id resp ep'") auto
qed

text \<open>
  C1. The code never asks the store for a next page: \<^verbatim>\<open>resp\<close> is assigned once, by the
  initial search. On a store whose first page holds a scroll cursor and one hit, every
  round of the loop yields that hit again and the loop never ends, however many rounds
  it is given.
\<close>

theorem scroll_reader_repeats_first_page:
  "iter_elastic_query fuel (\<lambda>index doc_type. example_page) ''docs'' ''text'' None None False
     = (replicate fuel (Yield (None, ''text'', JStr ''a'')), Out_of_fuel)"
  by (simp add: iter_elastic_query_def scroll_loop_example) (simp add: example_page_def)

lemma sample_hits_count:
  "sample_hits field subfield include_id hs ep sampled = (es, r, ep', sampled') \<Longrightarrow>
   sampled' = sampled + int (length (yields es)) \<and> length (yields es) \<le> length hs"
proof (induction hs arbitrary: ep sampled es r ep' sampled')
  case Nil
  then show ?case by simp
next
  case (Cons h hs)
  show ?case
  proof (cases "py_getitem h ''_source''")
    case (Inl e)
    with Cons.prems show ?thesis by auto
  next
    case (Inr s)
    show ?thesis
    proof (cases "make_tup field subfield include_id h s")
      case (Inr t)
      obtain es1 r1 ep1 s1 where rec:
        "sample_hits field subfield include_id hs ep (sampled + 1) = (es1, r1, ep1, s1)"
        by (cases "sample_hits field subfield include_id hs ep (sampled + 1)") auto
      from Cons.IH [OF rec] Cons.prems \<open>py_getitem h ''_source'' = Inr s\<close> Inr rec
      show ?thesis by (auto simp: cons_sampled_def)
    next
      case (Inl e)
      show ?thesis
      proof (cases "e = ValueError \<or> e = KeyError")
        case False
        with Cons.prems \<open>py_getitem h ''_source'' = Inr s\<close> Inl show ?thesis by auto
      next
        case True
        show ?thesis
        proof (cases "ep < 10")
          case True
          obtain es1 r1 ep1 s1 where rec:
            "sample_hits field subfield include_id hs (ep + 1) sampled = (es1, r1, ep1, s1)"
            by (cases "sample_hits field subfield include_id hs (ep + 1) sampled") auto
          from Cons.IH [OF rec] Cons.prems \<open>py_getitem h ''_source'' = Inr s\<close> Inl
            \<open>e = ValueError \<or> e = KeyError\<close> True rec
          show ?thesis by (auto simp: cons_sampled_def)
        next
          case False
          with Cons.prems \<open>py_getitem h ''_source'' = Inr s\<close> Inl \<open>e = ValueError \<or> e = KeyError\<close>
          have "sample_hits field subfield include_id hs ep sampled = (es, r, ep', sampled')"
            by auto
          from Cons.IH [OF this] show ?thesis by auto
        qed
      qed
    qed
  qed
qed

lemma random_in_range_size:
  "random_in_range r0 batch_size = (r, siz) \<Longrightarrow> siz \<le> batch_size"
  by (auto simp: random_in_range_def split: if_splits)

lemma sample_loop_done:
  "\<not> sampled < n_samples \<Longrightarrow>
   sample_loop fuel draws search full_doc_count field subfield include_id batch_size n_samples
     k sampled ep = ([], Returned, k)"
  by (cases fuel) auto

lemma sample_loop_returned:
  assumes "honours_size search"
  shows "sample_loop fuel draws search full_doc_count field subfield include_id batch_size
      n_samples k sampled ep = (es, Returned, k') \<Longrightarrow>
    k \<le> k'
    \<and> n_samples \<le> sampled + int (length (yields es))
    \<and> int (length (yields es)) \<le> int (k' - k) * int (nat batch_size)
    \<and> (sampled < n_samples \<longrightarrow>
         sampled + int (length (yields es)) \<le> n_samples - 1 + int (nat batch_size))"
proof (induction fuel arbitrary: k sampled ep es)
  case 0
  then show ?case by (auto split: if_splits simp del: int_nat_eq)
next
  case (Suc fuel)
  show ?case
  proof (cases "sampled < n_samples")
    case False
    with Suc.prems show ?thesis by (auto simp del: int_nat_eq)
  next
    case True
    with Suc.prems have count: "\<not> full_doc_count < 0"
      by (auto split: if_splits)
    obtain r siz where rr: "random_in_range (draws k) batch_size = (r, siz)"
      by (cases "random_in_range (draws k) batch_size") auto
    obtain es1 r1 ep1 s1 where sh:
      "sample_hits field subfield include_id (hits (search k r siz)) ep sampled = (es1, r1, ep1, s1)"
      by (cases "sample_hits field subfield include_id (hits (search k r siz)) ep sampled") auto
    obtain es2 e2 k2 where rec:
      "sample_loop fuel draws search full_doc_count field subfield include_id batch_size
         n_samples (Suc k) s1 ep1 = (es2, e2, k2)"
      by (cases "sample_loop fuel draws search full_doc_count field subfield include_id batch_size
         n_samples (Suc k) s1 ep1") auto
    from Suc.prems True count rr sh rec
    have r1: "r1 = None" and es: "es = es1 @ es2" and e2: "e2 = Returned" and k2: "k2 = k'"
      by (auto split: option.splits)
    from sample_hits_count [OF sh]
    have s1: "s1 = sampled + int (length (yields es1))"
      and l1: "length (yields es1) \<le> length (hits (search k r siz))" by simp_all
    from assms have "length (hits (search k r siz)) \<le> nat siz"
      by (simp add: honours_size_def)
    moreover from random_in_range_size [OF rr] have "nat siz \<le> nat batch_size" by simp
    ultimately have b1: "int (length (yields es1)) \<le> int (nat batch_size)"
      using l1 by linarith
    note Suc.IH [OF rec [unfolded e2 k2]]
    then have ih: "Suc k \<le> k'" "n_samples \<le> s1 + int (length (yields es2))"
      "int (length (yields es2)) \<le> int (k' - Suc k) * int (nat batch_size)"
      "s1 < n_samples \<longrightarrow> s1 + int (length (yields es2)) \<le> n_samples - 1 + int (nat batch_size)"
      by blast+
    have len: "int (length (yields es)) = int (length (yields es1)) + int (length (yields es2))"
      by (simp add: es yields_append)
    from ih(1) have kk: "int (k' - k) = int (k' - Suc k) + 1" by simp
    have c3: "int (length (yields es)) \<le> int (k' - k) * int (nat batch_size)"
      unfolding len kk using b1 ih(3) by (simp add: algebra_simps del: int_nat_eq)
    have c4: "sampled + int (length (yields es)) \<le> n_samples - 1 + int (nat batch_size)"
    proof (cases "s1 < n_samples")
      case True
      with ih(4) show ?thesis by (simp add: len s1 del: int_nat_eq)
    next
      case False
      from sample_loop_done [OF False] rec have "es2 = []" by simp
      with b1 \<open>sampled < n_samples\<close> show ?thesis by (simp add: len del: int_nat_eq)
    qed
    from ih(1) have c1: "k \<le> k'" by simp
    from ih(2) have c2: "n_samples \<le> sampled + int (length (yields es))"
      by (simp add: len s1)
    from c1 c2 c3 c4 show ?thesis by blast
  qed
qed

lemma honours_size_example: "honours_size example_search"
  by (simp add: honours_size_def example_search_def)

lemma sample_hits_example:
  "sample_hits ''text'' None False [example_hit, example_hit] ep sampled
     = ([Yield (None, ''text'', JStr ''a''), Yield (None, ''text'', JStr ''a'')], None, ep, sampled + 2)"
  by (simp add: example_hit_def make_tup_def cons_sampled_def)

lemma random_sample_example:
  "random_elastic_query 2 (\<lambda>k. 0) example_search 2 ''text'' None False 2 3
     = (replicate 4 (Yield (None, ''text'', JStr ''a'')), Returned, 2)"
proof -
  have window: "hits (example_search k 0 2) = [example_hit, example_hit]" for k
    by (simp add: example_search_def)
  have four: "replicate 4 x = [x, x, x, x]" for x :: "tup event"
    by (simp add: numeral_eq_Suc)
  have fuel: "(2::nat) = Suc (Suc 0)" by simp
  show ?thesis
    unfolding random_elastic_query_def four
    by (subst fuel) (simp add: random_in_range_def window sample_hits_example del: sample_hits.simps)
qed

text \<open>
  C9. For a batch size \<open>B\<close> with \<open>0 < B < K\<close> and a store that returns at most \<^verbatim>\<open>size\<close>
  hits per search, an iteration of the random-sample reader that completes has yielded
  at least \<open>K\<close> tuples and has issued at least \<open>\<lceil>K / B\<rceil>\<close> searches.
\<close>

theorem random_sample_completed_lower_bounds:
  assumes "honours_size search"
    and "0 < batch_size"
    and "batch_size < n_samples"
    and "random_elastic_query fuel draws search full_doc_count field subfield include_id
           batch_size n_samples = (es, Returned, queries)"
  shows "n_samples \<le> int (length (yields es))
    \<and> \<lceil>real_of_int n_samples / real_of_int batch_size\<rceil> \<le> int queries"
proof -
  from assms(4) have run: "sample_loop fuel draws search full_doc_count field subfield include_id
      batch_size n_samples 0 0 0 = (es, Returned, queries)"
    by (simp add: random_elastic_query_def)
  from sample_loop_returned [OF assms(1) run]
  have n: "n_samples \<le> int (length (yields es))"
    and q: "int (length (yields es)) \<le> int queries * int (nat batch_size)"
    by (simp_all del: int_nat_eq)
  from assms(2) have "int (nat batch_size) = batch_size" by simp
  with n q have "n_samples \<le> int queries * batch_size" by simp
  then have "real_of_int n_samples \<le> real_of_int (int queries) * real_of_int batch_size"
    by (metis of_int_le_iff of_int_mult)
  with assms(2) have "real_of_int n_samples / real_of_int batch_size \<le> real_of_int (int queries)"
    by (simp add: pos_divide_le_eq)
  then have "\<lceil>real_of_int n_samples / real_of_int batch_size\<rceil> \<le> int queries"
    by (simp add: ceiling_le_iff)
  with n show ?thesis by simp
qed

theorem random_sample_completed_lower_bounds_witness:
  "honours_size example_search
   \<and> (0::int) < 2 \<and> (2::int) < 3
   \<and> random_elastic_query 2 (\<lambda>k. 0) example_search 2 ''text'' None False 2 3
       = (replicate 4 (Yield (None, ''text'', JStr ''a'')), Returned, 2)
   \<and> (3::int) \<le> int (length (yields (replicate 4 (Yield (None :: json option, ''text'', JStr ''a'')))))
   \<and> \<lceil>real_of_int 3 / real_of_int 2\<rceil> \<le> int 2"
proof -
  have b: "(0::int) < 2" and k: "(2::int) < 3" by simp_all
  from random_sample_completed_lower_bounds [OF honours_size_example b k random_sample_example]
    honours_size_example random_sample_example
  show ?thesis by simp
qed

text \<open>
  C10. For a positive sample target and a store that returns at most \<^verbatim>\<open>size\<close> hits per
  search, an iteration of the random-sample reader that completes has yielded at most
  \<open>n_samples + batch_size - 1\<close> tuples: the count is below \<open>n_samples\<close> before the last
  batch, and the last batch adds at most \<open>batch_size\<close>.
\<close>

theorem random_sample_completed_upper_bound:
  assumes "honours_size search"
    and "0 < n_samples"
    and "random_elastic_query fuel draws search full_doc_count field subfield include_id
           batch_size n_samples = (es, Returned, queries)"
  shows "int (length (yields es)) \<le> n_samples + batch_size - 1"
proof -
  from assms(3) have run: "sample_loop fuel draws search full_doc_count field subfield include_id
      batch_size n_samples 0 0 0 = (es, Returned, queries)"
    by (simp add: random_elastic_query_def)
  from sample_loop_returned [OF assms(1) run] assms(2)
  have lo: "n_samples \<le> int (length (yields es))"
    and hi: "int (length (yields es)) \<le> n_samples - 1 + int (nat batch_size)"
    by (simp_all del: int_nat_eq)
  show ?thesis
  proof (cases "0 \<le> batch_size")
    case True
    with hi show ?thesis by simp
  next
    case False
    with hi have "int (length (yields es)) \<le> n_samples - 1" by simp
    with lo show ?thesis by simp
  qed
qed

theorem random_sample_completed_upper_bound_witness:
  "honours_size example_search
   \<and> (0::int) < 3
   \<and> random_elastic_query 2 (\<lambda>k. 0) example_search 2 ''text'' None False 2 3
       = (replicate 4 (Yield (None, ''text'', JStr ''a'')), Returned, 2)
   \<and> int (length (yields (replicate 4 (Yield (None :: json option, ''text'', JStr ''a''))))) \<le> 3 + 2 - 1"
proof -
  have k: "(0::int) < 3" by simp
  from random_sample_completed_upper_bound [OF honours_size_example k random_sample_example]
    honours_size_example random_sample_example
  show ?thesis by simp
qed

section \<open>Properties of the source resolver\<close>

lemma splitext_examples:
  "snd (splitext ''dump9200.json'') = ''.json''"
  "snd (splitext ''big.json'') = ''.json''"
  "snd (splitext ''data.json'') = ''.json''"
  "snd (splitext ''localhost:9200/dump.json'') = ''.json''"
  "snd (splitext ''array.json'') = ''.json''"
  "snd (splitext ''empty.json'') = ''.json''"
  by (simp_all add: splitext_def rfind_def)

lemma contains_examples:
  "str_contains ''9200'' ''dump9200.json''"
  "\<not> str_contains ''8983'' ''dump9200.json''"
  "str_contains ''9200'' ''localhost:9200/dump.json''"
  "\<not> str_contains ''8983'' ''localhost:9200/dump.json''"
  "\<not> str_contains ''9200'' ''big.json''"
  "\<not> str_contains ''8983'' ''big.json''"
  "\<not> str_contains ''9200'' ''data.json''"
  "\<not> str_contains ''8983'' ''data.json''"
  "\<not> str_contains ''9200'' ''array.json''"
  "\<not> str_contains ''8983'' ''array.json''"
  "\<not> str_contains ''9200'' ''empty.json''"
  "\<not> str_contains ''8983'' ''empty.json''"
  by simp_all

lemma example_registry_simps:
  "call_input example_registry ''read_json_stream'' source kwargs
     = Inr (iter_document_json_stream example_loads example_fs source ''text'')"
  "call_input example_registry ''read_elastic'' source kwargs
     = Inr (Gen [Yield (''read_elastic'', JStr source)] None)"
  "call_input example_registry ''read_large_json'' source kwargs
     = Inr (Gen [Yield (''read_large_json'', JStr source)] None)"
  by (simp_all add: call_input_def example_registry_def)

lemma json_stream_loop_raised:
  "raised (json_stream_loop loads filename field n ls) = None
   \<or> raised (json_stream_loop loads filename field n ls) = Some AttributeError"
proof (induction ls arbitrary: n)
  case Nil
  show ?case by simp
next
  case (Cons l ls)
  show ?case
  proof (cases "loads l")
    case None
    with Cons.IH [of "Suc n"] show ?thesis by simp
  next
    case (Some d)
    with Cons.IH [of "Suc n"] show ?thesis
      by (cases d) auto
  qed
qed

text \<open>
  The JSON-lines reader of readers.py catches the ValueError of every line itself, so
  pulling its first item never raises one: behind \<open>read_input\<close> it would never trigger
  the fall-back to the large-JSON reader.
\<close>

lemma json_stream_probe_not_ValueError:
  "next_item (iter_document_json_stream loads fs filename field) \<noteq> Inl ValueError"
proof (cases "fs filename")
  case None
  then show ?thesis
    by (simp add: iter_document_json_stream_def next_item_def)
next
  case (Some ls)
  with json_stream_loop_raised [of loads filename field 0 ls] show ?thesis
    by (auto simp: iter_document_json_stream_def next_item_def split: list.splits option.splits)
qed

text \<open>
  C8. With source type \<^verbatim>\<open>auto\<close>, a source that contains \<^verbatim>\<open>9200\<close> and not \<^verbatim>\<open>8983\<close> is
  handed to the Elasticsearch reader of the registry, whatever its extension is: the
  rule is tried before the one for \<^verbatim>\<open>.js\<close> and \<^verbatim>\<open>.json\<close>.
\<close>

theorem read_input_elastic_before_json:
  assumes "str_contains ''9200'' source"
    and "\<not> str_contains ''8983'' source"
  shows "read_input registered_inputs source ''auto'' content_field kwargs
    = call_input registered_inputs ''read_elastic'' source kwargs"
  using assms by (simp add: read_input_def)

theorem read_input_elastic_before_json_witness:
  "str_contains ''9200'' ''localhost:9200/dump.json''
   \<and> \<not> str_contains ''8983'' ''localhost:9200/dump.json''
   \<and> snd (splitext ''localhost:9200/dump.json'') \<in> set json_extensions
   \<and> read_input example_registry ''localhost:9200/dump.json'' ''auto'' ''text'' []
       = Inr (Gen [Yield (''read_elastic'', JStr ''localhost:9200/dump.json'')] None)"
  using read_input_elastic_before_json [OF contains_examples(3) contains_examples(4),
      where registered_inputs = example_registry and content_field = "''text''" and kwargs = "[]"]
    contains_examples(3) contains_examples(4) splitext_examples(4)
  by (simp add: example_registry_simps json_extensions_def)

lemma fst_pull [simp]: "fst (pull g) = next_item g"
  by (simp add: pull_def)

text \<open>
  The \<^verbatim>\<open>except ValueError\<close> branch of \<open>read_input\<close>: it is taken when the probe of the
  registered JSON-lines reader raises ValueError.
\<close>

lemma read_input_except_branch:
  assumes "snd (splitext source) \<in> set json_extensions"
    and "\<not> str_contains ''8983'' source"
    and "\<not> str_contains ''9200'' source"
    and "call_input registered_inputs ''read_json_stream'' source kwargs = Inr data_iterator"
    and "next_item data_iterator = Inl ValueError"
  shows "read_input registered_inputs source ''auto'' content_field kwargs
    = call_input registered_inputs ''read_large_json'' source kwargs"
  using assms by (simp add: read_input_def try_json_stream_def pull_def)

text \<open>
  With the JSON-lines reader of readers.py registered, that branch is never taken: on a
  source that reaches the extension rule, \<open>read_input\<close> raises what the probe raises, or
  returns the JSON-lines reader.
\<close>

lemma read_input_json_stream_no_fallback:
  assumes "registered_inputs ''read_json_stream''
      = Some (\<lambda>source kwargs. Inr (iter_document_json_stream loads fs source field))"
    and "snd (splitext source) \<in> set json_extensions"
    and "\<not> str_contains ''8983'' source"
    and "\<not> str_contains ''9200'' source"
  shows "read_input registered_inputs source ''auto'' content_field kwargs
    = (case next_item (iter_document_json_stream loads fs source field) of
         Inl e \<Rightarrow> Inl e
       | Inr first \<Rightarrow> Inr (iter_document_json_stream loads fs source field))"
proof -
  have call: "call_input registered_inputs ''read_json_stream'' source kwargs
      = Inr (iter_document_json_stream loads fs source field)"
    using assms(1) by (simp add: call_input_def)
  show ?thesis
  proof (cases "next_item (iter_document_json_stream loads fs source field)")
    case (Inl e)
    with json_stream_probe_not_ValueError [of loads fs source field] have "e \<noteq> ValueError"
      by auto
    with Inl assms(2-4) call show ?thesis
      by (simp add: read_input_def try_json_stream_def pull_def)
  next
    case (Inr first)
    with assms(2-4) call show ?thesis
      by (simp add: read_input_def try_json_stream_def pull_def)
  qed
qed





end
